theory Spec2Isabelle
  imports Complex_Main "HOL-Library.Log_Nat" "HOL-Library.AList"
begin

section \<open>JavaScript numbers\<close>

text \<open>
  The loader computes its percentage as \<^verbatim>\<open>Math.round((loadedImages / totalImages) * 100)\<close>
  and its random index as \<^verbatim>\<open>Math.floor(Math.random() * cachedUrls.length)\<close>. Both are
  arithmetic on IEEE 754 doubles: the quotient is rounded to the nearest double, and so is
  the product. A double is modelled by the rational number it denotes; \<open>fl\<close> rounds a
  non-negative rational to the nearest double, ties to the even significand, with 53
  significant bits above \<open>2 powi (- 1022)\<close> and the fixed spacing of the subnormal
  numbers below.

  Two idealisations: the counters are natural numbers (a double holds every integer below \<open>2 ^ 53\<close>
  exactly, and the length of a JavaScript array is below \<open>2 ^ 32\<close>), and \<open>fl\<close>
  never overflows to Infinity (a quotient of two such counters times 100 stays far
  below \<open>2 powi 1024\<close>). Division by zero is modelled: it gives Infinity or NaN.
\<close>

datatype number = Finite rat | PosInfinity | NaN

text \<open>
  \<open>expo x\<close> is the exponent \<open>e\<close> with \<open>2 powi e \<le> x < 2 powi (e + 1)\<close>, found from the
  bit lengths of numerator and denominator. \<open>binade x\<close> is the exponent of the binade
  that \<open>x\<close> is rounded in (the subnormal numbers share the lowest one), and \<open>ulp x\<close>
  the spacing of the doubles there.
\<close>

definition expo :: "rat \<Rightarrow> int" where
  "expo x = (case quotient_of x of (n, d) \<Rightarrow>
     (let e = bitlen n - bitlen d in if 2 powi e \<le> x then e else e - 1))"

definition binade :: "rat \<Rightarrow> int" where
  "binade x = max (expo x) (- 1022)"

definition ulp :: "rat \<Rightarrow> rat" where
  "ulp x = 2 powi (binade x - 52)"

definition round_half_even :: "rat \<Rightarrow> int" where
  "round_half_even x = (let f = \<lfloor>x\<rfloor>; r = x - of_int f in
     if r < 1 / 2 then f else if 1 / 2 < r then f + 1 else if even f then f else f + 1)"

definition fl :: "rat \<Rightarrow> rat" where
  "fl x = (if x = 0 then 0 else of_int (round_half_even (x / ulp x)) * ulp x)"

text \<open>A rational is a double when rounding leaves it alone.\<close>

definition is_double :: "rat \<Rightarrow> bool" where
  "is_double x = (fl x = x)"

text \<open>\<^verbatim>\<open>loadedImages / totalImages\<close>, on two counters.\<close>

definition js_divide :: "nat \<Rightarrow> nat \<Rightarrow> number" where
  "js_divide l t =
     (if t = 0 then (if l = 0 then NaN else PosInfinity)
      else Finite (fl (of_nat l / of_nat t)))"

text \<open>\<^verbatim>\<open>x * c\<close> for a positive finite constant \<open>c\<close>.\<close>

definition js_times :: "number \<Rightarrow> rat \<Rightarrow> number" where
  "js_times x c =
     (case x of Finite q \<Rightarrow> Finite (fl (q * c)) | PosInfinity \<Rightarrow> PosInfinity | NaN \<Rightarrow> NaN)"

text \<open>\<^verbatim>\<open>Math.round\<close>: the nearest integer, a tie going up.\<close>

definition Math_round :: "number \<Rightarrow> number" where
  "Math_round x =
     (case x of Finite p \<Rightarrow> Finite (of_int \<lfloor>p + 1 / 2\<rfloor>)
      | PosInfinity \<Rightarrow> PosInfinity | NaN \<Rightarrow> NaN)"

text \<open>\<^verbatim>\<open>Math.round((loadedImages / totalImages) * 100)\<close>.\<close>

definition progress_of :: "nat \<Rightarrow> nat \<Rightarrow> number" where
  "progress_of l t = Math_round (js_times (js_divide l t) 100)"


text \<open>
  \<^verbatim>\<open>Math.floor(Math.random() * n)\<close> for the draw \<open>r\<close> that \<^verbatim>\<open>Math.random()\<close> returned
  (a double with \<open>0 \<le> r < 1\<close>) and a length \<open>n\<close>.
\<close>

definition random_index :: "rat \<Rightarrow> nat \<Rightarrow> nat" where
  "random_index r n = nat \<lfloor>fl (r * of_nat n)\<rfloor>"


section \<open>JavaScript objects used as dictionaries\<close>

text \<open>
  \<^verbatim>\<open>this.imageCache = {}\<close> is an ordinary object: its own properties, in the order of
  their creation, and a prototype, which is \<^verbatim>\<open>Object.prototype\<close> at first.

  \<^item> Reading \<^verbatim>\<open>obj[key]\<close> finds an own property first and the members of the prototype
    chain after it; \<^verbatim>\<open>Object.prototype\<close> has the members listed in
    \<open>object_prototype_names\<close>, all of them functions but \<^verbatim>\<open>__proto__\<close>, which reads as
    the prototype object.
  \<^item> Writing \<^verbatim>\<open>obj[key] = img\<close> updates an own property in place or creates a new one
    at the end, except for the key \<^verbatim>\<open>__proto__\<close>: that assignment runs the setter of
    \<^verbatim>\<open>Object.prototype\<close>, which makes \<^verbatim>\<open>img\<close> the prototype of the object and
    creates no property.
  \<^item> Once an image element is the prototype, the members the chain offers are those of
    the DOM interface of image elements, accessors with setters among them. They are
    outside this development: the read of a key that is not an own property is
    \<open>Dom_dependent\<close> then, and the write of such a key has no result here.
  \<^item> \<^verbatim>\<open>Object.keys(obj)\<close> lists the own keys that are array indices (canonical decimal
    numerals up to \<open>2 ^ 32 - 2\<close>) in ascending order, then the others in the order of
    their creation.
\<close>

type_synonym handle = nat

datatype prototype = Object_prototype | Image_prototype handle

record js_object =
  own :: "(string \<times> handle) list"
  proto :: prototype

definition empty_object :: js_object where
  "empty_object = \<lparr>own = [], proto = Object_prototype\<rparr>"

definition object_prototype_names :: "string list" where
  "object_prototype_names =
     [''constructor'', ''__defineGetter__'', ''__defineSetter__'', ''hasOwnProperty'',
      ''__lookupGetter__'', ''__lookupSetter__'', ''isPrototypeOf'',
      ''propertyIsEnumerable'', ''toString'', ''valueOf'', ''__proto__'',
      ''toLocaleString'']"

datatype js_value =
  Null | Undefined | Str string | Img handle | Inherited string | Dom_dependent

definition js_get :: "js_object \<Rightarrow> string \<Rightarrow> js_value" where
  "js_get obj key =
     (case map_of (own obj) key of
        Some h \<Rightarrow> Img h
      | None \<Rightarrow>
          (case proto obj of
             Object_prototype \<Rightarrow>
               (if List.member object_prototype_names key then Inherited key else Undefined)
           | Image_prototype h \<Rightarrow> Dom_dependent))"

definition js_set :: "js_object \<Rightarrow> string \<Rightarrow> handle \<Rightarrow> js_object option" where
  "js_set obj key h =
     (case map_of (own obj) key of
        Some h0 \<Rightarrow> Some (obj\<lparr>own := AList.update key h (own obj)\<rparr>)
      | None \<Rightarrow>
          (if key = ''__proto__'' then Some (obj\<lparr>proto := Image_prototype h\<rparr>)
           else
             (case proto obj of
                Object_prototype \<Rightarrow> Some (obj\<lparr>own := AList.update key h (own obj)\<rparr>)
              | Image_prototype h1 \<Rightarrow> None)))"

text \<open>\<^verbatim>\<open>!!v\<close>; unknown where the value is.\<close>

fun truthy :: "js_value \<Rightarrow> bool option" where
  "truthy Null = Some False"
| "truthy Undefined = Some False"
| "truthy (Str s) = Some (s \<noteq> [])"
| "truthy (Img h) = Some True"
| "truthy (Inherited k) = Some True"
| "truthy Dom_dependent = None"

text \<open>The array indices among the keys, and the numbers they denote.\<close>

definition is_digit :: "char \<Rightarrow> bool" where
  "is_digit c = (48 \<le> (of_char c :: nat) \<and> (of_char c :: nat) \<le> 57)"

definition decimal :: "string \<Rightarrow> nat" where
  "decimal k = foldl (\<lambda>n c. 10 * n + (of_char c - 48)) 0 k"

definition is_array_index :: "string \<Rightarrow> bool" where
  "is_array_index k =
     (k \<noteq> [] \<and> list_all is_digit k \<and> (k = ''0'' \<or> hd k \<noteq> CHR ''0'') \<and>
      decimal k < 2 ^ 32 - 1)"

definition Object_keys :: "js_object \<Rightarrow> string list" where
  "Object_keys obj =
     (let ks = map fst (own obj) in
        sort_key decimal (filter is_array_index ks) @
        filter (\<lambda>k. \<not> is_array_index k) ks)"

text \<open>
  \<^verbatim>\<open>xs[i] = v\<close> on a JavaScript array: an index at or beyond the length extends the
  array, leaving holes.
\<close>

definition array_set :: "'a option list \<Rightarrow> nat \<Rightarrow> 'a \<Rightarrow> 'a option list" where
  "array_set xs i v =
     (if i < length xs then xs[i := Some v]
      else xs @ replicate (i - length xs) None @ [Some v])"

section \<open>The image loader\<close>

text \<open>
  The fields of \<^verbatim>\<open>ImageLoader\<close>, and with them what the program can observe of the
  browser: \<open>created\<close> holds the image elements that \<^verbatim>\<open>new Image()\<close> has made, each with
  the URL and index its \<^verbatim>\<open>onload\<close> and \<^verbatim>\<open>onerror\<close> closures captured (a handle is a
  position in this list); \<open>fired\<close> logs the events the browser has delivered, each
  with its outcome and its handle; \<open>calls\<close> logs the invocations of the three callbacks, in
  order. The callbacks are observers: they return and leave the loader alone. The
  progress bar (\<^verbatim>\<open>ImageLoaderUI\<close>) only listens to \<^verbatim>\<open>onProgress\<close> and is left out.
\<close>

record image_element =
  src_of :: string
  index_of :: nat

datatype outcome = Loaded | Failed

datatype callback = OnProgress number | OnComplete js_object | OnError string nat

record loader =
  images :: "string list"
  loadedImages :: nat
  totalImages :: nat
  imageElements :: "handle option list"
  imageCache :: js_object
  created :: "image_element list"
  fired :: "(outcome \<times> handle) list"
  calls :: "callback list"

definition new_ImageLoader :: "string list \<Rightarrow> loader" where
  "new_ImageLoader imgs =
     \<lparr>images = imgs, loadedImages = 0, totalImages = length imgs, imageElements = [],
      imageCache = empty_object, created = [], fired = [], calls = []\<rparr>"

definition preloadImage :: "string \<Rightarrow> nat \<Rightarrow> loader \<Rightarrow> loader" where
  "preloadImage src index s =
     s\<lparr>created := created s @ [\<lparr>src_of = src, index_of = index\<rparr>],
       imageElements := array_set (imageElements s) index (length (created s))\<rparr>"

definition preloadAll :: "loader \<Rightarrow> loader" where
  "preloadAll s =
     (if totalImages s = 0
      then s\<lparr>calls := calls s @ [OnProgress (Finite 100), OnComplete empty_object]\<rparr>
      else fold (\<lambda>(index, src). preloadImage src index) (enumerate 0 (images s)) s)"

definition handleImageLoad :: "handle \<Rightarrow> string \<Rightarrow> nat \<Rightarrow> loader \<Rightarrow> loader option" where
  "handleImageLoad img src index s =
     (let n = loadedImages s + 1 in
      case js_set (imageCache s) src img of
        None \<Rightarrow> None
      | Some cache \<Rightarrow>
          Some (s\<lparr>loadedImages := n, imageCache := cache,
                  calls := calls s @ OnProgress (progress_of n (totalImages s)) #
                    (if n = totalImages s then [OnComplete cache] else [])\<rparr>))"

definition handleImageError :: "string \<Rightarrow> nat \<Rightarrow> loader \<Rightarrow> loader" where
  "handleImageError src index s =
     (let n = loadedImages s + 1 in
      s\<lparr>loadedImages := n,
        calls := calls s @ OnError src index # OnProgress (progress_of n (totalImages s)) #
          (if n = totalImages s then [OnComplete (imageCache s)] else [])\<rparr>)"

definition getRandomImage :: "loader \<Rightarrow> rat \<Rightarrow> js_value" where
  "getRandomImage s r =
     (let cachedUrls = Object_keys (imageCache s) in
      if length cachedUrls = 0 then Null
      else
        (let randomIndex = random_index r (length cachedUrls) in
         js_get (imageCache s)
           (if randomIndex < length cachedUrls then cachedUrls ! randomIndex
            else ''undefined'')))"

definition getRandomImageURL :: "loader \<Rightarrow> rat \<Rightarrow> js_value" where
  "getRandomImageURL s r =
     (let cachedUrls = Object_keys (imageCache s) in
      if length cachedUrls = 0 then Null
      else
        (let randomIndex = random_index r (length cachedUrls) in
         if randomIndex < length cachedUrls then Str (cachedUrls ! randomIndex)
         else Undefined))"

definition isImageLoaded :: "loader \<Rightarrow> string \<Rightarrow> bool option" where
  "isImageLoaded s src = truthy (js_get (imageCache s) src)"

definition getLoadingProgress :: "loader \<Rightarrow> number" where
  "getLoadingProgress s =
     (if totalImages s = 0 then Finite 100
      else progress_of (loadedImages s) (totalImages s))"

definition addImages :: "string list \<Rightarrow> loader \<Rightarrow> loader" where
  "addImages imgs s =
     (let startIndex = totalImages s;
          s1 = s\<lparr>images := images s @ imgs\<rparr>;
          s2 = s1\<lparr>totalImages := length (images s1)\<rparr>
      in fold (\<lambda>(i, src). preloadImage src (startIndex + i)) (enumerate 0 imgs) s2)"

subsection \<open>Runs\<close>

text \<open>
  A run is a list of actions: the calls of the page (\<open>PreloadAll\<close>, \<open>AddImages\<close>) and the
  events of the browser (\<open>Fire_load h\<close>, \<open>Fire_error h\<close> on the image element \<open>h\<close>).
  A step has no result when the browser is asked to fire an event on an image element
  that was never created (\<open>No_such_image\<close>), or when the write to the cache reaches the
  DOM members of an image element that a \<^verbatim>\<open>__proto__\<close> URL has made its prototype
  (\<open>Dom_setter\<close>).
\<close>

datatype action = PreloadAll | AddImages "string list" | Fire_load handle | Fire_error handle

datatype stop = No_such_image | Dom_setter

fun step :: "action \<Rightarrow> loader \<Rightarrow> stop + loader" where
  "step PreloadAll s = Inr (preloadAll s)"
| "step (AddImages imgs) s = Inr (addImages imgs s)"
| "step (Fire_load h) s =
     (if h < length (created s)
      then
        (case handleImageLoad h (src_of (created s ! h)) (index_of (created s ! h))
                (s\<lparr>fired := fired s @ [(Loaded, h)]\<rparr>) of
           None \<Rightarrow> Inl Dom_setter
         | Some s' \<Rightarrow> Inr s')
      else Inl No_such_image)"
| "step (Fire_error h) s =
     (if h < length (created s)
      then Inr (handleImageError (src_of (created s ! h)) (index_of (created s ! h))
                  (s\<lparr>fired := fired s @ [(Failed, h)]\<rparr>))
      else Inl No_such_image)"

fun exec :: "action list \<Rightarrow> loader \<Rightarrow> stop + loader" where
  "exec [] s = Inr s"
| "exec (a # as) s = (case step a s of Inl e \<Rightarrow> Inl e | Inr s' \<Rightarrow> exec as s')"

subsection \<open>Reading the logs\<close>

text \<open>
  The arguments of the \<^verbatim>\<open>onProgress\<close> calls and of the \<^verbatim>\<open>onComplete\<close> calls, in order;
  the URLs of the image elements whose load event was delivered; the handles of the
  event log.
\<close>

fun progress_arg :: "callback \<Rightarrow> number list" where
  "progress_arg (OnProgress p) = [p]"
| "progress_arg (OnComplete obj) = []"
| "progress_arg (OnError src i) = []"

fun complete_arg :: "callback \<Rightarrow> js_object list" where
  "complete_arg (OnProgress p) = []"
| "complete_arg (OnComplete obj) = [obj]"
| "complete_arg (OnError src i) = []"

definition progress_values :: "callback list \<Rightarrow> number list" where
  "progress_values cs = concat (map progress_arg cs)"

definition completions :: "callback list \<Rightarrow> js_object list" where
  "completions cs = concat (map complete_arg cs)"

definition fired_handles :: "loader \<Rightarrow> handle list" where
  "fired_handles s = map snd (fired s)"

definition loaded_urls :: "loader \<Rightarrow> string list" where
  "loaded_urls s =
     map (\<lambda>e. src_of (created s ! snd e)) (filter (\<lambda>e. fst e = Loaded) (fired s))"






text \<open>
  What every state reached by the loader satisfies: the total is the length of the
  image list, the counter is the number of events delivered, and the events were
  delivered to image elements that exist.
\<close>

definition consistent :: "loader \<Rightarrow> bool" where
  "consistent s =
     (totalImages s = length (images s) \<and> loadedImages s = length (fired s) \<and>
      list_all (\<lambda>h. h < length (created s)) (fired_handles s))"



text \<open>
  The cache holds the URLs that loaded: the keys that \<^verbatim>\<open>Object.keys\<close> lists are the
  URLs of the image elements whose load event was delivered, the URL \<^verbatim>\<open>__proto__\<close>
  apart, which never becomes a key.
\<close>

definition cache_of_loaded :: "loader \<Rightarrow> bool" where
  "cache_of_loaded s =
     (set (Object_keys (imageCache s)) = set (loaded_urls s) - {''__proto__''})"

subsection \<open>Rounding to a double\<close>

text \<open>
  \<open>expo\<close> finds the exponent it is meant to find; rounding is monotone, moves a number
  by half a spacing at most, and leaves the numbers of the form \<open>m * ulp x\<close> alone.
\<close>

lemma rat_of_int_bitlen_bounds:
  assumes "0 < n"
  shows "2 powi (bitlen n - 1) \<le> (of_int n :: rat)" "(of_int n :: rat) < 2 powi bitlen n"
proof -
  from assms have b: "1 \<le> bitlen n" using bitlen_eq_zero_iff[of n] bitlen_nonneg[of n] by linarith
  from bitlen_bounds[OF assms] have lo: "2 ^ nat (bitlen n - 1) \<le> n" and hi: "n < 2 ^ nat (bitlen n)"
    by auto
  have "(of_int (2 ^ nat (bitlen n - 1)) :: rat) \<le> of_int n" using lo by (subst of_int_le_iff)
  then show "2 powi (bitlen n - 1) \<le> (of_int n :: rat)"
    using b by (simp add: power_int_def)
  have "(of_int n :: rat) < of_int (2 ^ nat (bitlen n))" using hi by (subst of_int_less_iff)
  then show "(of_int n :: rat) < 2 powi bitlen n"
    using b by (simp add: power_int_def)
qed

lemma expo_bounds:
  assumes "0 < x"
  shows "2 powi expo x \<le> x" "x < 2 powi (expo x + 1)"
proof -
  obtain n d where q: "quotient_of x = (n, d)" by (cases "quotient_of x")
  have d: "0 < d" using quotient_of_denom_pos[OF q] .
  have x: "x = of_int n / of_int d" using quotient_of_div[OF q] .
  have n: "0 < n" using assms d x by (simp add: zero_less_divide_iff)
  define e where "e = bitlen n - bitlen d"
  note bn = rat_of_int_bitlen_bounds[OF n] and bd = rat_of_int_bitlen_bounds[OF d]
  have dpos: "(0::rat) < of_int d" using d by simp
  have "x < 2 powi bitlen n / 2 powi (bitlen d - 1)"
    unfolding x using bn(2) bd(1) n by (intro frac_less) auto
  also have "\<dots> = 2 powi (e + 1)"
    by (simp add: e_def power_int_diff[symmetric] algebra_simps)
  finally have hi: "x < 2 powi (e + 1)" .
  have "2 powi (bitlen n - 1) / 2 powi bitlen d < x"
    unfolding x using bn(1) bd(2) d by (intro frac_less2) auto
  moreover have "2 powi (bitlen n - 1) / 2 powi bitlen d = (2::rat) powi (e - 1)"
    by (simp add: e_def power_int_diff[symmetric] algebra_simps)
  ultimately have lo: "2 powi (e - 1) < x" by simp
  have ex: "expo x = (if 2 powi e \<le> x then e else e - 1)"
    by (simp add: expo_def q e_def Let_def)
  show "2 powi expo x \<le> x" using lo by (simp add: ex)
  show "x < 2 powi (expo x + 1)" using hi by (simp add: ex)
qed

lemma pow2_less_iff: "(2::rat) powi m < 2 powi n \<longleftrightarrow> m < n"
proof
  assume l: "(2::rat) powi m < 2 powi n"
  show "m < n"
  proof (rule ccontr)
    assume "\<not> m < n"
    then have "n \<le> m" by simp
    then have "(2::rat) powi n \<le> 2 powi m" by (intro power_int_increasing) auto
    with l show False by simp
  qed
next
  assume "m < n"
  then show "(2::rat) powi m < 2 powi n" by (intro power_int_strict_increasing) auto
qed


lemma expo_unique:
  assumes "2 powi e \<le> x" "x < 2 powi (e + 1)"
  shows "expo x = e"
proof -
  have pos: "0 < x" using assms(1) by (rule less_le_trans[rotated]) simp
  note b = expo_bounds[OF pos]
  have "2 powi e < (2::rat) powi (expo x + 1)" using assms(1) b(2) by (rule le_less_trans)
  then have 1: "e < expo x + 1" by (simp add: pow2_less_iff)
  have "2 powi expo x < (2::rat) powi (e + 1)" using b(1) assms(2) by (rule le_less_trans)
  then have 2: "expo x < e + 1" by (simp add: pow2_less_iff)
  from 1 2 show ?thesis by simp
qed


lemma round_half_even_near:
  "\<bar>of_int (round_half_even x) - x\<bar> \<le> 1 / 2"
proof -
  have "of_int \<lfloor>x\<rfloor> \<le> x" "x < of_int \<lfloor>x\<rfloor> + 1" by linarith+
  then show ?thesis
    unfolding round_half_even_def Let_def by (auto simp: abs_le_iff)
qed

lemma round_half_even_of_int [simp]: "round_half_even (of_int k) = k"
  by (simp add: round_half_even_def)

lemma round_half_even_mono:
  assumes "x \<le> y"
  shows "round_half_even x \<le> round_half_even y"
proof (rule ccontr)
  assume "\<not> ?thesis"
  then have gt: "round_half_even y + 1 \<le> round_half_even x" by simp
  then have "(of_int (round_half_even y) :: rat) + 1 \<le> of_int (round_half_even x)"
    by (metis of_int_1 of_int_add of_int_le_iff)
  with round_half_even_near[of x] round_half_even_near[of y] assms
  have xy: "x = y" by (simp add: abs_le_iff) 
  with gt show False by simp
qed

lemma ulp_binade: "ulp x = 2 powi (binade x - 52)"
  by (simp add: ulp_def)

lemma ulp_pos [simp]: "0 < ulp x"
  by (simp add: ulp_def)

lemma ulp_nonneg [simp]: "0 \<le> ulp x"
  using ulp_pos[of x] by (rule less_imp_le)

lemma ulp_neq0 [simp]: "ulp x \<noteq> 0"
  by (simp add: ulp_def)


lemma pow2_split: "(2::rat) powi (a + b) = 2 powi a * 2 powi b"
  by (simp add: power_int_add)

lemma ulp_times:
  "ulp x * 2 powi 52 = 2 powi binade x" "ulp x * 2 powi 53 = 2 powi (binade x + 1)"
proof -
  show "ulp x * 2 powi 52 = 2 powi binade x"
    unfolding ulp_binade pow2_split[symmetric] by (simp only: diff_add_cancel)
  have "binade x - 52 + 53 = binade x + 1" by arith
  then show "ulp x * 2 powi 53 = 2 powi (binade x + 1)"
    unfolding ulp_binade pow2_split[symmetric] by (simp only:)
qed



lemma fl_nonneg:
  assumes "0 \<le> x"
  shows "0 \<le> fl x"
proof -
  have "of_int 0 \<le> x / ulp x" using assms by simp
  from round_half_even_mono[OF this] have "0 \<le> round_half_even (x / ulp x)"
    by (simp only: round_half_even_of_int)
  then show ?thesis by (simp add: fl_def)
qed






lemma fl_near: "\<bar>fl x - x\<bar> \<le> ulp x / 2"
proof (cases "x = 0")
  case True
  then show ?thesis by (simp add: fl_def)
next
  case False
  have "\<bar>of_int (round_half_even (x / ulp x)) - x / ulp x\<bar> * ulp x \<le> 1 / 2 * ulp x"
    by (intro mult_right_mono round_half_even_near) simp
  moreover have "\<bar>of_int (round_half_even (x / ulp x)) - x / ulp x\<bar> * ulp x =
      \<bar>(of_int (round_half_even (x / ulp x)) - x / ulp x) * ulp x\<bar>"
    by (simp add: abs_mult)
  moreover have "(of_int (round_half_even (x / ulp x)) - x / ulp x) * ulp x = fl x - x"
    using False by (simp add: fl_def left_diff_distrib)
  ultimately show ?thesis by simp
qed

lemma fl_representable:
  assumes "x = of_int m * ulp x"
  shows "fl x = x"
proof (cases "x = 0")
  case True
  then show ?thesis by (simp add: fl_def)
next
  case False
  have "x / ulp x = of_int m" using assms by (metis nonzero_mult_div_cancel_right ulp_neq0)
  then show ?thesis using False assms by (simp add: fl_def)
qed









subsection \<open>The percentage\<close>








subsection \<open>The random index\<close>

text \<open>
  The largest double below 1 is \<open>1 - 1 / 2 ^ 53\<close>, and its product with \<open>n\<close> is
  rounded to a double below \<open>n\<close>.
\<close>

lemma double_below_1:
  assumes "is_double r" "0 \<le> r" "r < 1"
  shows "r \<le> 1 - 1 / 2 ^ 53"
proof (cases "r < 1 / 2")
  case True
  then show ?thesis by simp
next
  case False
  then have lo: "2 powi (- 1) \<le> r" by (simp add: power_int_minus_divide)
  have hi: "r < 2 powi (- 1 + 1)" using assms(3) by simp
  have e: "expo r = - 1" using expo_unique[OF lo hi] .
  have u: "ulp r = 1 / 2 ^ 53" by (simp add: ulp_def binade_def e power_int_minus_divide)
  define m where "m = round_half_even (r / ulp r)"
  have r0: "r \<noteq> 0" using False by auto
  have r: "r = of_int m * (1 / 2 ^ 53)"
    using assms(1) r0 unfolding is_double_def fl_def m_def u by simp
  have "of_int m < (2 ^ 53 :: rat)"
  proof -
    have "of_int m * (1 / 2 ^ 53) < (1 :: rat)" using assms(3) r by simp
    then show ?thesis by (simp add: field_simps)
  qed
  then have "of_int m < (of_int (2 ^ 53) :: rat)" by simp
  then have "m < 2 ^ 53" by (simp only: of_int_less_iff)
  then have "m \<le> 2 ^ 53 - 1" by simp
  then have "(of_int m :: rat) \<le> of_int (2 ^ 53 - 1)" by (simp only: of_int_le_iff)
  then have "(of_int m :: rat) * (1 / 2 ^ 53) \<le> of_int (2 ^ 53 - 1) * (1 / 2 ^ 53)"
    by (intro mult_right_mono) auto
  with r show ?thesis by simp
qed

lemma fl_below_integer:
  fixes n x :: rat
  assumes "1 \<le> n" "0 \<le> x" "x \<le> n - n / 2 ^ 53"
  shows "fl x < n"
proof (cases "x = 0")
  case True
  with assms(1) show ?thesis by (simp add: fl_def)
next
  case False
  with assms(2) have x: "0 < x" by simp
  show ?thesis
  proof (rule ccontr)
    assume "\<not> fl x < n"
    then have "n - x \<le> fl x - x" by simp
    also have "\<dots> \<le> ulp x / 2" using fl_near[of x] by linarith
    finally have "n / 2 ^ 53 \<le> ulp x / 2" using assms(3) by linarith
    then have "n \<le> ulp x * 2 ^ 52" by (simp add: field_simps)
    also have "ulp x * 2 ^ 52 = ulp x * 2 powi 52" by simp
    also have "\<dots> = 2 powi binade x" by (rule ulp_times(1))
    finally have n: "n \<le> 2 powi binade x" .
    have xn: "x < n"
    proof -
      have "0 < n / 2 ^ 53" using assms(1) by simp
      with assms(3) show ?thesis by linarith
    qed
    show False
    proof (cases "binade x = expo x")
      case True
      with expo_bounds(1)[OF x] n xn show False by simp
    next
      case False
      then have "binade x = - 1022" by (auto simp: binade_def max_def split: if_splits)
      with n have "n \<le> 2 powi (- 1022)" by simp
      moreover have "(2::rat) powi (- 1022) < 2 powi 0" by (simp only: pow2_less_iff)
      ultimately show False using assms(1) by simp
    qed
  qed
qed

lemma random_index_in_range:
  assumes "is_double r" "0 \<le> r" "r < 1" "0 < n"
  shows "random_index r n < n"
proof -
  have n1: "(1::rat) \<le> of_nat n" using assms(4) by simp
  have "r * of_nat n \<le> (1 - 1 / 2 ^ 53) * of_nat n"
    using double_below_1[OF assms(1-3)] by (intro mult_right_mono) auto
  then have le: "r * of_nat n \<le> of_nat n - of_nat n / 2 ^ 53" by (simp add: algebra_simps)
  have nn: "0 \<le> r * of_nat n" using assms(2) by simp
  from fl_below_integer[OF n1 nn le] have "fl (r * of_nat n) < of_nat n" .
  then have "\<lfloor>fl (r * of_nat n)\<rfloor> < int n" by (simp add: floor_less_iff)
  moreover have "0 \<le> \<lfloor>fl (r * of_nat n)\<rfloor>" using fl_nonneg[OF nn] by simp
  ultimately show ?thesis unfolding random_index_def by linarith
qed

subsection \<open>What the calls of the page do to the fields\<close>

lemma fold_preloadImage:
  "fold (\<lambda>(i, src). preloadImage src (f i)) ps s =
     s\<lparr>created := created s @ map (\<lambda>(i, src). \<lparr>src_of = src, index_of = f i\<rparr>) ps,
       imageElements := imageElements (fold (\<lambda>(i, src). preloadImage src (f i)) ps s)\<rparr>"
proof (induction ps arbitrary: s)
  case Nil
  show ?case by simp
next
  case (Cons p ps)
  obtain i src where p: "p = (i, src)" by (cases p)
  show ?case
    by (subst fold_simps, subst Cons.IH) (simp add: p preloadImage_def)
qed

lemma created_fold_preloadImage:
  "created (fold (\<lambda>(i, src). preloadImage src (f i)) ps s) =
     created s @ map (\<lambda>(i, src). \<lparr>src_of = src, index_of = f i\<rparr>) ps"
  by (subst fold_preloadImage) simp

lemma frame_fold_preloadImage:
  "images (fold (\<lambda>(i, src). preloadImage src (f i)) ps s) = images s"
  "loadedImages (fold (\<lambda>(i, src). preloadImage src (f i)) ps s) = loadedImages s"
  "totalImages (fold (\<lambda>(i, src). preloadImage src (f i)) ps s) = totalImages s"
  "imageCache (fold (\<lambda>(i, src). preloadImage src (f i)) ps s) = imageCache s"
  "fired (fold (\<lambda>(i, src). preloadImage src (f i)) ps s) = fired s"
  "calls (fold (\<lambda>(i, src). preloadImage src (f i)) ps s) = calls s"
  by (subst fold_preloadImage, simp)+

lemma addImages_effect:
  "images (addImages imgs s) = images s @ imgs"
  "totalImages (addImages imgs s) = length (images s) + length imgs"
  "loadedImages (addImages imgs s) = loadedImages s"
  "imageCache (addImages imgs s) = imageCache s"
  "fired (addImages imgs s) = fired s"
  "calls (addImages imgs s) = calls s"
  "created (addImages imgs s) =
     created s @
     map (\<lambda>(i, src). \<lparr>src_of = src, index_of = totalImages s + i\<rparr>) (enumerate 0 imgs)"
  by (simp_all add: addImages_def Let_def frame_fold_preloadImage created_fold_preloadImage)

lemma preloadAll_effect:
  "images (preloadAll s) = images s"
  "totalImages (preloadAll s) = totalImages s"
  "loadedImages (preloadAll s) = loadedImages s"
  "imageCache (preloadAll s) = imageCache s"
  "fired (preloadAll s) = fired s"
  by (simp_all add: preloadAll_def frame_fold_preloadImage[where f = "\<lambda>i. i"])

lemma created_preloadAll:
  "created (preloadAll s) =
     (if totalImages s = 0 then created s
      else created s @
           map (\<lambda>(i, src). \<lparr>src_of = src, index_of = i\<rparr>) (enumerate 0 (images s)))"
  by (simp add: preloadAll_def created_fold_preloadImage[where f = "\<lambda>i. i"])


lemma handleImageError_effect:
  "images (handleImageError src i s) = images s"
  "totalImages (handleImageError src i s) = totalImages s"
  "loadedImages (handleImageError src i s) = loadedImages s + 1"
  "imageCache (handleImageError src i s) = imageCache s"
  "created (handleImageError src i s) = created s"
  "fired (handleImageError src i s) = fired s"
  by (simp_all add: handleImageError_def Let_def)

lemma handleImageLoad_effect:
  assumes "handleImageLoad h src i s = Some s'"
  shows "images s' = images s" "totalImages s' = totalImages s"
    "loadedImages s' = loadedImages s + 1" "created s' = created s" "fired s' = fired s"
    "js_set (imageCache s) src h = Some (imageCache s')"
  using assms by (auto simp: handleImageLoad_def Let_def split: option.splits)

subsection \<open>Runs: what every step keeps\<close>


lemma step_Fire_load:
  assumes "step (Fire_load h) s = Inr s'"
  shows "h < length (created s)" "fired s' = fired s @ [(Loaded, h)]"
    "loadedImages s' = loadedImages s + 1" "totalImages s' = totalImages s"
    "images s' = images s" "created s' = created s"
    "js_set (imageCache s) (src_of (created s ! h)) h = Some (imageCache s')"
    "calls s' = calls s @ OnProgress (progress_of (loadedImages s + 1) (totalImages s)) #
       (if loadedImages s + 1 = totalImages s then [OnComplete (imageCache s')] else [])"
  using assms
  by (auto simp: handleImageLoad_def Let_def split: if_splits option.splits)

lemma step_Fire_error:
  assumes "step (Fire_error h) s = Inr s'"
  shows "h < length (created s)" "fired s' = fired s @ [(Failed, h)]"
    "loadedImages s' = loadedImages s + 1" "totalImages s' = totalImages s"
    "images s' = images s" "created s' = created s"
    "imageCache s' = imageCache s"
    "calls s' = calls s @ OnError (src_of (created s ! h)) (index_of (created s ! h)) #
       OnProgress (progress_of (loadedImages s + 1) (totalImages s)) #
       (if loadedImages s + 1 = totalImages s then [OnComplete (imageCache s)] else [])"
  using assms
  by (auto simp: handleImageError_def Let_def split: if_splits)

lemma handles_bounded_mono:
  "list_all (\<lambda>h. h < n) hs \<Longrightarrow> n \<le> m \<Longrightarrow> list_all (\<lambda>h. h < (m::nat)) hs"
  by (induction hs) auto

lemma step_consistent:
  assumes "step a s = Inr s'" "consistent s"
  shows "consistent s'"
proof (cases a)
  case PreloadAll
  have "length (created s) \<le> length (created (preloadAll s))"
    by (simp add: created_preloadAll)
  moreover have "s' = preloadAll s" using assms PreloadAll by simp
  ultimately show ?thesis
    using assms(2) handles_bounded_mono[of "length (created s)" "fired_handles s"]
    by (simp add: consistent_def preloadAll_effect fired_handles_def)
next
  case (AddImages imgs)
  have "length (created s) \<le> length (created (addImages imgs s))"
    by (simp add: addImages_effect)
  moreover have "s' = addImages imgs s" using assms AddImages by simp
  ultimately show ?thesis
    using assms(2) handles_bounded_mono[of "length (created s)" "fired_handles s"]
    by (simp add: consistent_def addImages_effect(1-6) fired_handles_def)
next
  case (Fire_load h)
  with assms have "step (Fire_load h) s = Inr s'" by simp
  from step_Fire_load[OF this] assms(2) show ?thesis
    by (simp add: consistent_def fired_handles_def)
next
  case (Fire_error h)
  with assms have "step (Fire_error h) s = Inr s'" by simp
  from step_Fire_error[OF this] assms(2) show ?thesis
    by (simp add: consistent_def fired_handles_def)
qed

lemma exec_consistent:
  "exec run s = Inr s' \<Longrightarrow> consistent s \<Longrightarrow> consistent s'"
proof (induction run arbitrary: s)
  case Nil
  then show ?case by simp
next
  case (Cons a run)
  then show ?case by (auto split: sum.splits dest: step_consistent)
qed

lemma consistent_new: "consistent (new_ImageLoader imgs)"
  by (simp add: consistent_def new_ImageLoader_def fired_handles_def)

lemma total_is_length:
  "exec run (new_ImageLoader imgs) = Inr s \<Longrightarrow> totalImages s = length (images s)"
  using exec_consistent[OF _ consistent_new] by (auto simp: consistent_def)









lemma completions_simps [simp]:
  "completions [] = []"
  "completions (c # cs) = complete_arg c @ completions cs"
  "completions (xs @ ys) = completions xs @ completions ys"
  by (simp_all add: completions_def)

lemma progress_values_simps [simp]:
  "progress_values [] = []"
  "progress_values (c # cs) = progress_arg c @ progress_values cs"
  "progress_values (xs @ ys) = progress_values xs @ progress_values ys"
  by (simp_all add: progress_values_def)









subsection \<open>The keys of the cache\<close>

lemma set_Object_keys: "set (Object_keys obj) = fst ` set (own obj)"
  by (auto simp: Object_keys_def Let_def)

lemma length_Object_keys: "length (Object_keys obj) = length (own obj)"
  using sum_length_filter_compl[of is_array_index "map fst (own obj)"]
  by (simp add: Object_keys_def Let_def)

lemma Object_keys_empty_iff: "Object_keys obj = [] \<longleftrightarrow> own obj = []"
  using length_Object_keys[of obj] by (metis length_0_conv)

lemma keys_js_set:
  assumes "js_set obj k h = Some obj'"
  shows "fst ` set (own obj') =
     (if k = ''__proto__'' \<and> k \<notin> fst ` set (own obj) then fst ` set (own obj)
      else insert k (fst ` set (own obj)))"
proof (cases "map_of (own obj) k")
  case None
  then have notin: "k \<notin> fst ` set (own obj)" by (simp add: map_of_eq_None_iff)
  show ?thesis
  proof (cases "k = ''__proto__''")
    case True
    with None assms have "own obj' = own obj" by (auto simp: js_set_def)
    with True notin show ?thesis by simp
  next
    case False
    with None assms have "own obj' = AList.update k h (own obj)"
      by (auto simp: js_set_def split: prototype.splits)
    with False show ?thesis by (simp add: dom_update)
  qed
next
  case (Some h0)
  then have "k \<in> fst ` set (own obj)"
    by (metis domI dom_map_of_conv_image_fst)
  moreover from Some assms have "own obj' = AList.update k h (own obj)"
    by (auto simp: js_set_def)
  ultimately show ?thesis by (simp add: dom_update)
qed

lemma isImageLoaded_plain:
  assumes "proto (imageCache s) = Object_prototype"
  shows "isImageLoaded s src =
    Some (src \<in> set (Object_keys (imageCache s)) \<or> src \<in> set object_prototype_names)"
proof (cases "map_of (own (imageCache s)) src")
  case None
  then have "src \<notin> fst ` set (own (imageCache s))" by (simp add: map_of_eq_None_iff)
  with None assms show ?thesis
    by (simp add: isImageLoaded_def js_get_def set_Object_keys)
next
  case (Some h)
  then have "src \<in> fst ` set (own (imageCache s))" by (metis domI dom_map_of_conv_image_fst)
  with Some show ?thesis
    by (simp add: isImageLoaded_def js_get_def set_Object_keys)
qed

lemma loaded_urls_created_grows:
  assumes "consistent s" "fired s' = fired s" "created s' = created s @ zs"
  shows "loaded_urls s' = loaded_urls s"
proof -
  have "\<forall>e\<in>set (fired s). snd e < length (created s)"
    using assms(1) by (simp add: consistent_def fired_handles_def list_all_iff)
  then show ?thesis
    using assms(2,3) by (auto simp: loaded_urls_def nth_append)
qed

lemma step_loaded_urls:
  assumes "step a s = Inr s'" "consistent s"
  shows "loaded_urls s' =
     loaded_urls s @ (case a of Fire_load h \<Rightarrow> [src_of (created s ! h)] | _ \<Rightarrow> [])"
proof (cases a)
  case PreloadAll
  with assms(1) have s': "s' = preloadAll s" by simp
  have "\<exists>zs. created s' = created s @ zs"
    by (simp add: s' created_preloadAll)
  then obtain zs where "created s' = created s @ zs" by blast
  moreover have "fired s' = fired s" by (simp add: s' preloadAll_effect)
  ultimately have "loaded_urls s' = loaded_urls s"
    using loaded_urls_created_grows[OF assms(2)] by blast
  with PreloadAll show ?thesis by simp
next
  case (AddImages imgs)
  with assms(1) have s': "s' = addImages imgs s" by simp
  have "loaded_urls s' = loaded_urls s"
    by (rule loaded_urls_created_grows[OF assms(2)])
      (simp_all add: s' addImages_effect)
  with AddImages show ?thesis by simp
next
  case (Fire_load h)
  with assms(1) have st: "step (Fire_load h) s = Inr s'" by simp
  from step_Fire_load(2,6)[OF st] Fire_load show ?thesis
    by (simp add: loaded_urls_def)
next
  case (Fire_error h)
  with assms(1) have st: "step (Fire_error h) s = Inr s'" by simp
  from step_Fire_error(2,6)[OF st] Fire_error show ?thesis
    by (simp add: loaded_urls_def)
qed

lemma step_cache_of_loaded:
  assumes "step a s = Inr s'" "consistent s" "cache_of_loaded s"
  shows "cache_of_loaded s'"
proof (cases a)
  case PreloadAll
  with assms(1) have "imageCache s' = imageCache s" by (auto simp: preloadAll_effect)
  with step_loaded_urls[OF assms(1,2)] PreloadAll assms(3) show ?thesis
    by (simp add: cache_of_loaded_def)
next
  case (AddImages imgs)
  with assms(1) have "imageCache s' = imageCache s" by (auto simp: addImages_effect)
  with step_loaded_urls[OF assms(1,2)] AddImages assms(3) show ?thesis
    by (simp add: cache_of_loaded_def)
next
  case (Fire_load h)
  with assms(1) have st: "step (Fire_load h) s = Inr s'" by simp
  from keys_js_set[OF step_Fire_load(7)[OF st]] step_loaded_urls[OF assms(1,2)] Fire_load assms(3)
  show ?thesis
    by (auto simp: cache_of_loaded_def set_Object_keys split: if_splits)
next
  case (Fire_error h)
  with assms(1) have st: "step (Fire_error h) s = Inr s'" by simp
  from step_Fire_error(7)[OF st] step_loaded_urls[OF assms(1,2)] Fire_error assms(3)
  show ?thesis
    by (simp add: cache_of_loaded_def)
qed

lemma exec_cache_of_loaded:
  "exec run s = Inr s' \<Longrightarrow> consistent s \<Longrightarrow> cache_of_loaded s \<Longrightarrow> cache_of_loaded s'"
proof (induction run arbitrary: s)
  case Nil
  then show ?case by simp
next
  case (Cons a run)
  from Cons.prems(1) obtain s1 where 1: "step a s = Inr s1" and 2: "exec run s1 = Inr s'"
    by (auto split: sum.splits)
  show ?case
    using Cons.IH[OF 2 step_consistent[OF 1 Cons.prems(2)]
        step_cache_of_loaded[OF 1 Cons.prems(2,3)]] .
qed

lemma cache_keys_are_loaded_urls:
  assumes "exec run (new_ImageLoader imgs) = Inr s"
  shows "set (Object_keys (imageCache s)) = set (loaded_urls s) - {''__proto__''}"
proof -
  have "cache_of_loaded (new_ImageLoader imgs)"
    by (simp add: cache_of_loaded_def new_ImageLoader_def loaded_urls_def Object_keys_def
        empty_object_def)
  from exec_cache_of_loaded[OF assms consistent_new this] show ?thesis
    by (simp add: cache_of_loaded_def)
qed

subsection \<open>Runs of events\<close>











text \<open>The equations that evaluate a run on concrete images.\<close>

lemmas run_simps =
  new_ImageLoader_def preloadAll_def preloadImage_def array_set_def handleImageLoad_def
  handleImageError_def js_set_def empty_object_def addImages_def Let_def enumerate_eq_zip
  upt_rec

section \<open>The completion callback\<close>




section \<open>The percentage passed to the progress callback\<close>




section \<open>The zero-image case\<close>

text \<open>
  C3. With no image to load, \<^verbatim>\<open>preloadAll()\<close> calls \<^verbatim>\<open>onProgress(100)\<close> and then
  \<^verbatim>\<open>onComplete({})\<close>, on an empty object, and does nothing else: no image element is
  created and no field changes. \<^verbatim>\<open>getLoadingProgress()\<close> is 100 whenever the total
  is 0, whatever the counter holds: the division is not evaluated.
\<close>

theorem zero_images_complete_at_once:
  "preloadAll (new_ImageLoader []) =
     (new_ImageLoader [])\<lparr>calls := [OnProgress (Finite 100), OnComplete empty_object]\<rparr>
   \<and> created (preloadAll (new_ImageLoader [])) = []
   \<and> own empty_object = []
   \<and> preloadAll (s\<lparr>totalImages := 0\<rparr>) =
       s\<lparr>totalImages := 0,
         calls := calls s @ [OnProgress (Finite 100), OnComplete empty_object]\<rparr>
   \<and> getLoadingProgress (s\<lparr>totalImages := 0\<rparr>) = Finite 100"
  by (simp add: preloadAll_def new_ImageLoader_def getLoadingProgress_def empty_object_def)

section \<open>What the cache holds\<close>

text \<open>
  C4, at the input where the program departs from it. The error handler leaves the
  cache alone (lemma \<open>handleImageError_effect\<close>) and the keys of the cache are the URLs
  that loaded, except for one URL (lemma \<open>cache_keys_are_loaded_urls\<close>): when the image
  list is \<^verbatim>\<open>["__proto__"]\<close> and that image loads, the assignment
  \<^verbatim>\<open>this.imageCache[src] = img\<close> replaces the prototype of the cache and adds no key.
  The load has succeeded, \<^verbatim>\<open>onComplete\<close> receives a cache without keys, and
  \<^verbatim>\<open>getRandomImage()\<close> and \<^verbatim>\<open>getRandomImageURL()\<close> return null.
\<close>

theorem proto_url_loaded_but_not_cached:
  "case exec [PreloadAll, Fire_load 0] (new_ImageLoader [''__proto__'']) of
     Inl e \<Rightarrow> False
   | Inr s \<Rightarrow>
       loaded_urls s = [''__proto__''] \<and> Object_keys (imageCache s) = [] \<and>
       completions (calls s) = [\<lparr>own = [], proto = Image_prototype 0\<rparr>] \<and>
       getRandomImageURL s r = Null \<and> getRandomImage s r = Null"
  by (simp add: run_simps loaded_urls_def Object_keys_def getRandomImageURL_def
      getRandomImage_def)

section \<open>The counter and the total\<close>




section \<open>A random image from the cache\<close>

text \<open>
  C6. Let \<open>r\<close> be what \<^verbatim>\<open>Math.random()\<close> returns: a double with \<open>0 \<le> r < 1\<close>.
  \<^verbatim>\<open>getRandomImageURL()\<close> and \<^verbatim>\<open>getRandomImage()\<close> return null exactly when the cache has
  no key. Otherwise the index \<^verbatim>\<open>Math.floor(r * cachedUrls.length)\<close> is below the number
  of keys, although the product is rounded to a double; \<^verbatim>\<open>getRandomImageURL()\<close> returns
  the key at that index, a key of the cache, and \<^verbatim>\<open>getRandomImage()\<close> returns the image
  element that the cache holds under this key.
\<close>

theorem random_image_from_cache:
  assumes "is_double r" and "0 \<le> r" and "r < 1"
  shows "(getRandomImageURL s r = Null \<longleftrightarrow> own (imageCache s) = [])
    \<and> (getRandomImage s r = Null \<longleftrightarrow> own (imageCache s) = [])
    \<and> (own (imageCache s) \<noteq> [] \<longrightarrow>
         random_index r (length (Object_keys (imageCache s))) < length (Object_keys (imageCache s))
         \<and> (\<exists>k\<in>fst ` set (own (imageCache s)).
               getRandomImageURL s r = Str k \<and>
               (\<exists>h. map_of (own (imageCache s)) k = Some h \<and> getRandomImage s r = Img h)))"
proof (cases "own (imageCache s) = []")
  case True
  then show ?thesis
    by (simp add: getRandomImageURL_def getRandomImage_def Object_keys_empty_iff Let_def)
next
  case False
  let ?keys = "Object_keys (imageCache s)"
  let ?i = "random_index r (length ?keys)"
  have n: "0 < length ?keys" using False by (simp add: length_Object_keys)
  have i: "?i < length ?keys" using random_index_in_range[OF assms n] .
  then have "?keys ! ?i \<in> set ?keys" by (rule nth_mem)
  then have k: "?keys ! ?i \<in> fst ` set (own (imageCache s))" by (simp only: set_Object_keys)
  then obtain h where h: "map_of (own (imageCache s)) (?keys ! ?i) = Some h"
    by (metis domD dom_map_of_conv_image_fst)
  have u: "getRandomImageURL s r = Str (?keys ! ?i)"
    using n i by (simp add: getRandomImageURL_def Let_def)
  have g: "getRandomImage s r = Img h"
    using n i h by (simp add: getRandomImage_def Let_def js_get_def)
  from False i k h u g show ?thesis by auto
qed

theorem random_image_from_cache_witness:
  "is_double (9007199254740991 / 9007199254740992)
   \<and> (case exec [PreloadAll, Fire_load 0, Fire_load 1, Fire_load 2]
               (new_ImageLoader [''b.png'', ''7'', ''a.png'']) of
         Inl e \<Rightarrow> False
       | Inr s \<Rightarrow>
           Object_keys (imageCache s) = [''7'', ''b.png'', ''a.png''] \<and>
           random_index (9007199254740991 / 9007199254740992) 3 = 2 \<and>
           getRandomImageURL s (9007199254740991 / 9007199254740992) = Str ''a.png'' \<and>
           getRandomImage s (9007199254740991 / 9007199254740992) = Img 2 \<and>
           getRandomImageURL s 0 = Str ''7'' \<and> getRandomImage s 0 = Img 1)"
proof -
  let ?r = "9007199254740991 / 9007199254740992 :: rat"
  have d: "is_double ?r" by code_simp
  have d0: "is_double 0" by (simp add: is_double_def fl_def)
  have b: "0 \<le> ?r" "?r < 1" by simp_all
  obtain s where e: "exec [PreloadAll, Fire_load 0, Fire_load 1, Fire_load 2]
               (new_ImageLoader [''b.png'', ''7'', ''a.png'']) = Inr s"
    and c: "own (imageCache s) = [(''b.png'', 0), (''7'', 1), (''a.png'', 2)]"
    by (simp add: run_simps)
  have k: "Object_keys (imageCache s) = [''7'', ''b.png'', ''a.png'']"
    by (simp add: Object_keys_def c is_array_index_def is_digit_def decimal_def)
  have i: "random_index ?r 3 = 2" "random_index ?r (Suc (Suc (Suc 0))) = Suc (Suc 0)"
    by code_simp+
  have i0: "random_index 0 n = 0" for n by (simp add: random_index_def fl_def)
  from random_image_from_cache[OF d b, of s] c
  have "getRandomImageURL s ?r \<noteq> Null" by simp
  moreover have "getRandomImageURL s ?r = Str ''a.png''" "getRandomImage s ?r = Img 2"
    "getRandomImageURL s 0 = Str ''7''" "getRandomImage s 0 = Img 1"
    by (simp_all add: getRandomImageURL_def getRandomImage_def k i(2) i0 c js_get_def)
  ultimately show ?thesis unfolding e using d k i(1) by simp
qed

section \<open>Asking whether an image is loaded\<close>

text \<open>
  C7, at the input where the program departs from it. \<^verbatim>\<open>isImageLoaded(src)\<close> is
  \<^verbatim>\<open>!!this.imageCache[src]\<close>, and the read finds the members that the cache inherits
  from \<^verbatim>\<open>Object.prototype\<close>: on a loader that has loaded nothing,
  \<^verbatim>\<open>isImageLoaded("constructor")\<close> and \<^verbatim>\<open>isImageLoaded("toString")\<close> are true. While the
  prototype of the cache is \<^verbatim>\<open>Object.prototype\<close>, the answer is true for the keys of the
  cache and for these member names, and for nothing else (lemma \<open>isImageLoaded_plain\<close>).
\<close>

theorem inherited_member_counts_as_loaded:
  "isImageLoaded (new_ImageLoader imgs) ''constructor'' = Some True
   \<and> isImageLoaded (new_ImageLoader imgs) ''toString'' = Some True
   \<and> Object_keys (imageCache (new_ImageLoader imgs)) = []
   \<and> loaded_urls (new_ImageLoader imgs) = []"
  by (simp add: isImageLoaded_def new_ImageLoader_def js_get_def empty_object_def
      object_prototype_names_def Object_keys_def loaded_urls_def)

section \<open>Image elements are created by the calls of the page only\<close>



section \<open>The sequence of percentages\<close>



section \<open>Adding images\<close>

text \<open>
  C10. \<^verbatim>\<open>addImages(L)\<close> appends \<open>L\<close> to the image list, raises \<^verbatim>\<open>totalImages\<close> by the
  length of \<open>L\<close>, creates one image element per entry of \<open>L\<close>, in order, with the
  entry's URL and the indices \<^verbatim>\<open>totalImages\<close>, \<^verbatim>\<open>totalImages + 1\<close>, ... counted from the
  old total, and leaves the counter of completed loads, the cache, the event log and
  the callbacks alone. The new total is read off the list, so it is the old total plus
  the length of \<open>L\<close> in the states where \<^verbatim>\<open>totalImages\<close> is the length of the list,
  which are all the states the loader reaches by itself (lemma \<open>total_is_length\<close>).
\<close>

theorem addImages_frame:
  assumes "totalImages s = length (images s)"
  shows "totalImages (addImages imgs s) = totalImages s + length imgs
    \<and> images (addImages imgs s) = images s @ imgs
    \<and> created (addImages imgs s) =
        created s @
        map (\<lambda>(i, src). \<lparr>src_of = src, index_of = totalImages s + i\<rparr>) (enumerate 0 imgs)
    \<and> loadedImages (addImages imgs s) = loadedImages s
    \<and> imageCache (addImages imgs s) = imageCache s
    \<and> calls (addImages imgs s) = calls s"
  using assms by (simp add: addImages_effect)

theorem addImages_frame_witness:
  "totalImages (addImages [''c.png'', ''a.png''] (new_ImageLoader [''a.png''])) = 3
   \<and> images (addImages [''c.png'', ''a.png''] (new_ImageLoader [''a.png''])) =
       [''a.png'', ''c.png'', ''a.png'']
   \<and> created (addImages [''c.png'', ''a.png''] (new_ImageLoader [''a.png''])) =
       [\<lparr>src_of = ''c.png'', index_of = 1\<rparr>, \<lparr>src_of = ''a.png'', index_of = 2\<rparr>]
   \<and> loadedImages (addImages [''c.png'', ''a.png''] (new_ImageLoader [''a.png''])) = 0"
  using addImages_frame [of "new_ImageLoader [''a.png'']" "[''c.png'', ''a.png'']"]
  by (simp add: new_ImageLoader_def enumerate_eq_zip upt_rec)

end
